theory Spec2Isabelle
  imports Main "HOL-Library.Word"
begin

unbundle bit_operations_syntax

section \<open>The telemetry decoder of decHexBinConverter.c\<close>

text \<open>
  The program reads a line of hexadecimal digits, parses it into a \<open>uint32_t\<close>, cuts
  four sensor fields out of it by shifting and masking, and prints an alarm line for each
  field that is out of its range. The C integer types are modelled as words of their
  width: \<open>uint32_t\<close> as \<open>32 word\<close>, \<open>uint16_t\<close> and \<open>int16_t\<close> as \<open>16 word\<close> (the
  latter read with \<open>sint\<close>), \<open>uint8_t\<close> as \<open>8 word\<close>, and \<open>int\<close> as \<open>32 word\<close>.
\<close>

type_synonym uint32_t = "32 word"
type_synonym uint16_t = "16 word"
type_synonym int16_t = "16 word"
type_synonym uint8_t = "8 word"
type_synonym c_int = "32 word"

subsection \<open>Constants\<close>

definition TEMPERATURE_BITS_MASK :: uint8_t where
  "TEMPERATURE_BITS_MASK = 0xff"

definition PRESSURE_BITS_SHIFT :: uint8_t where
  "PRESSURE_BITS_SHIFT = 8"

definition PRESSURE_BITS_MASK :: uint8_t where
  "PRESSURE_BITS_MASK = 0x7f"

definition HUMIDITY_BITS_SHIFT :: uint8_t where
  "HUMIDITY_BITS_SHIFT = 15"

definition HUMIDITY_BITS_MASK :: uint8_t where
  "HUMIDITY_BITS_MASK = 0xf"

definition FLUID_LEVEL_BITS_SHIFT :: uint8_t where
  "FLUID_LEVEL_BITS_SHIFT = 19"

definition MAX_HEX_DIGITS :: uint8_t where
  "MAX_HEX_DIGITS = 8"

definition HEX_INPUT_BUFFER_SIZE :: uint8_t where
  "HEX_INPUT_BUFFER_SIZE = 9"

definition HUMIDITY_BITS :: uint8_t where
  "HUMIDITY_BITS = 4"

subsection \<open>The record codec\<close>

text \<open>
  Each getter receives its arguments by value and works on its own copy \<open>tempData\<close>.
  The \<open>uint8_t\<close> mask is converted to the type of \<open>tempData\<close> before the conjunction
  (\<open>ucast\<close>). A shift count of 32 or more is undefined in C; \<open>main\<close> passes 8, 15 and
  19, and the theorems below are about these calls.

  \<open>getTemperature\<close>: the masked value is cast to \<open>short int\<close> (16 bits), promoted to
  \<open>int\<close> (\<open>scast\<close>, sign-extending), 20 is subtracted in \<open>int\<close>, and the result is
  converted to the return type \<open>int16_t\<close>.
\<close>

definition getTemperature :: "uint32_t \<Rightarrow> uint8_t \<Rightarrow> int16_t" where
  "getTemperature tempData maskForTemp =
     (let tempData = tempData AND ucast maskForTemp;
          r = (scast (ucast tempData :: 16 word) :: c_int) - 20
      in ucast r)"

definition getPressure :: "uint32_t \<Rightarrow> uint8_t \<Rightarrow> uint8_t \<Rightarrow> uint16_t" where
  "getPressure tempData maskForPressure shiftForPressure =
     (let tempData = drop_bit (unat shiftForPressure) tempData;
          tempData = tempData AND ucast maskForPressure;
          r = (ucast tempData :: c_int) + 1010
      in ucast r)"

definition getHumidity :: "uint32_t \<Rightarrow> uint8_t \<Rightarrow> uint8_t \<Rightarrow> uint8_t" where
  "getHumidity tempData maskForHumidity shiftForHumidity =
     (let tempData = drop_bit (unat shiftForHumidity) tempData;
          tempData = tempData AND ucast maskForHumidity
      in ucast tempData)"

definition getFluidLevel :: "uint32_t \<Rightarrow> uint8_t \<Rightarrow> uint16_t" where
  "getFluidLevel tempData shiftForFluidLevel =
     (let tempData = drop_bit (unat shiftForFluidLevel) tempData
      in ucast tempData)"

text \<open>The four readings that \<open>main\<close> keeps in its local variables.\<close>

record DecodedReading =
  temperature :: int16_t
  pressure :: uint16_t
  humidity :: uint8_t
  fluidLevel :: uint16_t

text \<open>The four calls of \<open>main\<close>, with the constants it passes.\<close>

definition decode :: "uint32_t \<Rightarrow> DecodedReading" where
  "decode receivedData =
     \<lparr> temperature = getTemperature receivedData TEMPERATURE_BITS_MASK,
       pressure = getPressure receivedData PRESSURE_BITS_MASK PRESSURE_BITS_SHIFT,
       humidity = getHumidity receivedData HUMIDITY_BITS_MASK HUMIDITY_BITS_SHIFT,
       fluidLevel = getFluidLevel receivedData FLUID_LEVEL_BITS_SHIFT \<rparr>"

subsection \<open>The alarm evaluator\<close>

text \<open>
  \<open>countHumidityBits\<close>: the \<open>for\<close> loop over \<open>i\<close>, with the \<open>uint8_t\<close> counter as
  an accumulator. \<open>bitsToBeCounted\<close> is promoted to \<open>int\<close> before the shift. The
  function returns the value of the comparison \<open>counter > 2\<close>, an \<open>int\<close> that is 1
  or 0.
\<close>

function countHumidityBits_loop :: "nat \<Rightarrow> uint8_t \<Rightarrow> uint8_t \<Rightarrow> uint8_t \<Rightarrow> uint8_t" where
  "countHumidityBits_loop i bitsToBeCounted checkedBits counter =
     (if i < unat checkedBits then
        (let temp = (ucast (drop_bit i (ucast bitsToBeCounted :: c_int) AND 0x1) :: uint8_t)
         in countHumidityBits_loop (i + 1) bitsToBeCounted checkedBits
              (if temp \<noteq> 0 then counter + 1 else counter))
      else counter)"
  by pat_completeness auto
termination
  by (relation "measure (\<lambda>(i, b, checkedBits, c). unat checkedBits - i)") auto

declare countHumidityBits_loop.simps [simp del]

definition countHumidityBits :: "uint8_t \<Rightarrow> uint8_t \<Rightarrow> c_int" where
  "countHumidityBits bitsToBeCounted checkedBits =
     (let counter = countHumidityBits_loop 0 bitsToBeCounted checkedBits 0
      in if uint counter > 2 then 1 else 0)"

text \<open>
  \<open>alarm\<close> returns nothing and prints one line for each alarm. The model returns the
  lines it prints, in the order it prints them; a line keeps the value that the format
  string shows. The operands of the comparisons are promoted to \<open>int\<close>: \<open>sint\<close> for
  the \<open>int16_t\<close>, \<open>uint\<close> for the \<open>uint16_t\<close>.
\<close>

datatype alarm_line =
    TemperatureLow int16_t
  | TemperatureHigh int16_t
  | PressureLow uint16_t
  | PressureHigh uint16_t
  | HumidityExceeded
  | TankEmpty
  | FluidLevelHigh uint16_t

definition alarm :: "int16_t \<Rightarrow> uint16_t \<Rightarrow> uint8_t \<Rightarrow> uint16_t \<Rightarrow> alarm_line list" where
  "alarm temperatureData pressureData humidityData fluidLevelData =
     (if sint temperatureData \<le> 4 then [TemperatureLow temperatureData]
      else if sint temperatureData > 100 then [TemperatureHigh temperatureData]
      else [])
     @
     (if uint pressureData < 1013 then [PressureLow pressureData]
      else if uint pressureData > 1135 then [PressureHigh pressureData]
      else [])
     @
     (if countHumidityBits humidityData HUMIDITY_BITS \<noteq> 0 then [HumidityExceeded]
      else [])
     @
     (if uint fluidLevelData \<le> 0 then [TankEmpty]
      else if uint fluidLevelData > 8000 then [FluidLevelHigh fluidLevelData]
      else [])"

text \<open>
  The alarm evaluator as the specification words it: four independent checks per field,
  none depending on another, reported in the order of the fields.
\<close>

definition evaluate_spec :: "DecodedReading \<Rightarrow> alarm_line list" where
  "evaluate_spec r =
     (if sint (temperature r) \<le> 4 then [TemperatureLow (temperature r)] else []) @
     (if sint (temperature r) > 100 then [TemperatureHigh (temperature r)] else []) @
     (if uint (pressure r) < 1013 then [PressureLow (pressure r)] else []) @
     (if uint (pressure r) > 1135 then [PressureHigh (pressure r)] else []) @
     (if 2 < length (filter (bit (humidity r)) [0..<4]) then [HumidityExceeded] else []) @
     (if uint (fluidLevel r) = 0 then [TankEmpty] else []) @
     (if uint (fluidLevel r) > 8000 then [FluidLevelHigh (fluidLevel r)] else [])"

subsection \<open>The variables of main\<close>

text \<open>
  \<open>main\<close> declares its variables once, before the loop, and every iteration assigns
  them again. \<open>main_decode\<close> is the four assignments of one iteration, \<open>main_alarm\<close>
  the call of \<open>alarm\<close> that follows them.
\<close>

record main_vars =
  dataString :: "char list"
  receivedData :: uint32_t
  reading :: DecodedReading

definition main_decode :: "main_vars \<Rightarrow> main_vars" where
  "main_decode s =
     (let s = s\<lparr>reading := (reading s)\<lparr>temperature :=
                  getTemperature (receivedData s) TEMPERATURE_BITS_MASK\<rparr>\<rparr>;
          s = s\<lparr>reading := (reading s)\<lparr>pressure :=
                  getPressure (receivedData s) PRESSURE_BITS_MASK PRESSURE_BITS_SHIFT\<rparr>\<rparr>;
          s = s\<lparr>reading := (reading s)\<lparr>humidity :=
                  getHumidity (receivedData s) HUMIDITY_BITS_MASK HUMIDITY_BITS_SHIFT\<rparr>\<rparr>;
          s = s\<lparr>reading := (reading s)\<lparr>fluidLevel :=
                  getFluidLevel (receivedData s) FLUID_LEVEL_BITS_SHIFT\<rparr>\<rparr>
      in s)"

definition main_alarm :: "main_vars \<Rightarrow> alarm_line list" where
  "main_alarm s =
     alarm (temperature (reading s)) (pressure (reading s)) (humidity (reading s))
       (fluidLevel (reading s))"

subsection \<open>Packing, as the specification describes it\<close>

text \<open>
  The program only decodes. The specification's round trip builds a raw value by putting
  chosen field values at the bit offsets 0, 8, 15 and 19; \<open>pack_spec\<close> is that
  construction.
\<close>

definition pack_spec :: "uint32_t \<Rightarrow> uint32_t \<Rightarrow> uint32_t \<Rightarrow> uint32_t \<Rightarrow> uint32_t" where
  "pack_spec temperature_raw pressure_raw humidity_raw fluid_raw =
     temperature_raw OR push_bit 8 pressure_raw OR push_bit 15 humidity_raw
       OR push_bit 19 fluid_raw"

subsection \<open>Reading a line\<close>

text \<open>
  Standard input is the list of the characters that are still to be read. \<open>getchar\<close>
  takes the first of them, and returns \<open>EOF\<close> (here \<open>None\<close>) when there is none, as
  often as it is called. The character buffer \<open>dataString\<close> is a list of characters that
  is updated by index; the string it holds ends before its first \<open>NUL\<close>.
\<close>

definition NUL :: char where
  "NUL = CHR 0x00"

definition NL :: char where
  "NL = CHR 0x0A"

fun getchar :: "char list \<Rightarrow> char option \<times> char list" where
  "getchar [] = (None, [])"
| "getchar (c # cs) = (Some c, cs)"

text \<open>
  The conversion of the \<open>int\<close> that \<open>getchar\<close> returns to the \<open>char\<close> in
  \<open>tempChar\<close>: \<open>EOF\<close> is \<open>-1\<close> and becomes the byte \<open>0xFF\<close>.
\<close>

definition int_to_char :: "char option \<Rightarrow> char" where
  "int_to_char r = (case r of None \<Rightarrow> CHR 0xFF | Some c \<Rightarrow> c)"

text \<open>The string in a buffer: the characters before the first \<open>NUL\<close>.\<close>

definition c_str :: "char list \<Rightarrow> char list" where
  "c_str data = takeWhile (\<lambda>c. c \<noteq> NUL) data"

text \<open>
  \<open>flushBuffer\<close> is \<open>while (getchar() != '\n');\<close>. At the end of the input
  \<open>getchar\<close> returns \<open>EOF\<close> for ever and the loop does not end: the result is
  \<open>None\<close>. Otherwise the result is the input after the first newline.
\<close>

fun flushBuffer :: "char list \<Rightarrow> char list option" where
  "flushBuffer [] = None"
| "flushBuffer (c # cs) = (if c \<noteq> NL then flushBuffer cs else Some cs)"

text \<open>
  \<open>getBuffer\<close>: the \<open>for\<close> loop over \<open>i\<close>; \<open>break\<close> returns at once. The result is
  the buffer and the input that is left, or \<open>None\<close> when \<open>flushBuffer\<close> does not
  return. \<open>table_size - 1\<close> is computed in \<open>int\<close>. A write behind the end of the
  buffer is undefined in C; \<open>main\<close> passes a buffer of \<open>HEX_INPUT_BUFFER_SIZE\<close>
  characters together with that size, and the theorems below assume this length.
\<close>

function getBuffer_loop ::
  "nat \<Rightarrow> char list \<Rightarrow> uint8_t \<Rightarrow> char list \<Rightarrow> (char list \<times> char list) option" where
  "getBuffer_loop i input table_size stdin =
     (if i < unat table_size then
        (case getchar stdin of (r, stdin') \<Rightarrow>
           (let tempChar = int_to_char r in
            if tempChar = NL then Some (input[i := NUL], stdin')
            else if int i \<ge> uint table_size - 1 then
              (case flushBuffer stdin' of
                 None \<Rightarrow> None
               | Some stdin'' \<Rightarrow>
                   getBuffer_loop (i + 1) (input[nat (uint table_size - 1) := NUL])
                     table_size stdin'')
            else getBuffer_loop (i + 1) (input[i := tempChar]) table_size stdin'))
      else Some (input, stdin))"
  by pat_completeness auto
termination
  by (relation "measure (\<lambda>(i, input, table_size, stdin). unat table_size - i)") auto

declare getBuffer_loop.simps [simp del]

definition getBuffer :: "char list \<Rightarrow> uint8_t \<Rightarrow> char list \<Rightarrow> (char list \<times> char list) option" where
  "getBuffer input table_size stdin = getBuffer_loop 0 input table_size stdin"

subsection \<open>Checking a line\<close>

text \<open>
  \<open>toupper\<close> and \<open>isdigit\<close> in the C locale. \<open>strcmp\<close> returns 0 exactly when the
  two strings are equal, so \<open>checkIfEnd\<close> compares the string in the buffer with
  \<open>END\<close>. The comparisons with \<open>'A'\<close> and \<open>'F'\<close> are on the character codes; a byte
  above 127 is outside \<open>'A'..'F'\<close> whether \<open>char\<close> is signed or not.
\<close>

definition toupper :: "char \<Rightarrow> char" where
  "toupper c =
     (if (97 :: nat) \<le> of_char c \<and> of_char c \<le> (122 :: nat)
      then char_of (of_char c - (32 :: nat)) else c)"

definition isdigit :: "char \<Rightarrow> bool" where
  "isdigit c = ((48 :: nat) \<le> of_char c \<and> of_char c \<le> (57 :: nat))"

text \<open>The hexadecimal digits that the specification names: 0-9 and A-F.\<close>

definition hex_digit_spec :: "char \<Rightarrow> bool" where
  "hex_digit_spec c = (c \<in> set ''0123456789ABCDEF'')"

function dataToUpperCase_loop :: "nat \<Rightarrow> char list \<Rightarrow> uint8_t \<Rightarrow> char list" where
  "dataToUpperCase_loop i dataToBeTranformed max_size =
     (if i < unat max_size \<and> dataToBeTranformed ! i \<noteq> NUL then
        dataToUpperCase_loop (i + 1)
          (dataToBeTranformed[i := toupper (dataToBeTranformed ! i)]) max_size
      else dataToBeTranformed)"
  by pat_completeness auto
termination
  by (relation "measure (\<lambda>(i, d, max_size). unat max_size - i)") auto

declare dataToUpperCase_loop.simps [simp del]

definition dataToUpperCase :: "char list \<Rightarrow> uint8_t \<Rightarrow> char list" where
  "dataToUpperCase dataToBeTranformed max_size =
     dataToUpperCase_loop 0 dataToBeTranformed max_size"

function flushData_loop :: "nat \<Rightarrow> char list \<Rightarrow> uint8_t \<Rightarrow> char list" where
  "flushData_loop i dataToBeFlashed size_of_table =
     (if i < unat size_of_table \<and> dataToBeFlashed ! i \<noteq> NUL then
        flushData_loop (i + 1) (dataToBeFlashed[i := NUL]) size_of_table
      else dataToBeFlashed)"
  by pat_completeness auto
termination
  by (relation "measure (\<lambda>(i, d, size_of_table). unat size_of_table - i)") auto

declare flushData_loop.simps [simp del]

definition flushData :: "char list \<Rightarrow> uint8_t \<Rightarrow> char list" where
  "flushData dataToBeFlashed size_of_table = flushData_loop 0 dataToBeFlashed size_of_table"

definition checkIfEnd :: "char list \<Rightarrow> bool" where
  "checkIfEnd checkIfDataIsEnd = (if c_str checkIfDataIsEnd = ''END'' then True else False)"

function checkEnteredData_loop :: "nat \<Rightarrow> char list \<Rightarrow> uint8_t \<Rightarrow> bool" where
  "checkEnteredData_loop i dataToBeChecked max_size =
     (if i < unat max_size \<and> dataToBeChecked ! i \<noteq> NUL then
        (if \<not> isdigit (dataToBeChecked ! i)
            \<and> ((of_char (dataToBeChecked ! i) :: nat) < of_char CHR ''A''
                 \<or> (of_char (dataToBeChecked ! i) :: nat) > of_char CHR ''F'')
         then False
         else checkEnteredData_loop (i + 1) dataToBeChecked max_size)
      else True)"
  by pat_completeness auto
termination
  by (relation "measure (\<lambda>(i, d, max_size). unat max_size - i)") auto

declare checkEnteredData_loop.simps [simp del]

definition checkEnteredData :: "char list \<Rightarrow> uint8_t \<Rightarrow> bool" where
  "checkEnteredData dataToBeChecked max_size = checkEnteredData_loop 0 dataToBeChecked max_size"

subsection \<open>The input loop\<close>

text \<open>
  One pass through the body of the \<open>do ... while (true)\<close> loop of \<open>enterData\<close> ends in
  one of three ways: the loop goes round again (and prints its prompt again), the program
  leaves through \<open>exit\<close>, or \<open>break\<close> leaves the loop and \<open>enterData\<close> returns. The
  messages that are printed on the way do not change the buffer or the control flow and
  are left out. The call of \<open>exit\<close> here is the only way out of the program: the loop
  of \<open>main\<close> is \<open>while (1)\<close> and has no \<open>break\<close> and no \<open>return\<close>.
\<close>

datatype pass =
    Again "char list" "char list"
  | Exit int
  | Break "char list" "char list"

definition enterData_body ::
  "char list \<Rightarrow> uint8_t \<Rightarrow> uint8_t \<Rightarrow> char list \<Rightarrow> pass option" where
  "enterData_body enteredData max_size size_of_whole_table stdin =
     (case getBuffer enteredData size_of_whole_table stdin of
        None \<Rightarrow> None
      | Some (enteredData, stdin) \<Rightarrow>
          (let enteredData =
                 (if enteredData ! 0 \<noteq> NUL then dataToUpperCase enteredData max_size
                  else enteredData)
           in if enteredData ! 0 = NUL
              then Some (Again (flushData enteredData size_of_whole_table) stdin)
              else if checkIfEnd enteredData then Some (Exit 0)
              else if \<not> checkEnteredData enteredData max_size
              then Some (Again (flushData enteredData size_of_whole_table) stdin)
              else Some (Break enteredData stdin)))"

text \<open>
  \<open>enterData\<close> either returns with the buffer and the rest of the input, or ends the
  program with an exit status. The loop has no bound: on an input that never holds an
  acceptable line it does not return, and the result is \<open>None\<close>.
\<close>

datatype outcome =
    Returned "char list" "char list"
  | Exited int

partial_function (option) enterData ::
  "char list \<Rightarrow> uint8_t \<Rightarrow> uint8_t \<Rightarrow> char list \<Rightarrow> outcome option" where
  "enterData enteredData max_size size_of_whole_table stdin =
     (case enterData_body enteredData max_size size_of_whole_table stdin of
        None \<Rightarrow> None
      | Some (Again enteredData' stdin') \<Rightarrow>
          enterData enteredData' max_size size_of_whole_table stdin'
      | Some (Exit status) \<Rightarrow> Some (Exited status)
      | Some (Break enteredData' stdin') \<Rightarrow> Some (Returned enteredData' stdin'))"

declare enterData.simps [code]

section \<open>Properties\<close>

lemmas constants_defs =
  TEMPERATURE_BITS_MASK_def PRESSURE_BITS_SHIFT_def PRESSURE_BITS_MASK_def
  HUMIDITY_BITS_SHIFT_def HUMIDITY_BITS_MASK_def FLUID_LEVEL_BITS_SHIFT_def
  MAX_HEX_DIGITS_def HEX_INPUT_BUFFER_SIZE_def HUMIDITY_BITS_def

subsection \<open>Conversions between the integer types\<close>

lemma trunc_int_to_16: "(ucast (word_of_int k :: 32 word) :: 16 word) = word_of_int k"
  by (simp add: ucast_eq word_of_int_eq_iff uint_word_of_int_eq)

lemma sint_int16_small:
  "- 32768 \<le> k \<Longrightarrow> k < 32768 \<Longrightarrow> sint (word_of_int k :: 16 word) = k"
  by (simp add: sint_sbintrunc' signed_take_bit_int_eq_self)

lemma uint_uint16_small:
  "0 \<le> k \<Longrightarrow> k < 65536 \<Longrightarrow> uint (word_of_int k :: 16 word) = k"
  by (simp add: uint_word_of_int_eq take_bit_int_eq_self)

lemma uint_and_le: "uint ((w :: 32 word) AND m) \<le> uint m"
  using word_and_le1 [of w m] by (simp add: word_le_def)

lemma uint_narrow_8: "uint (w :: 32 word) < 256 \<Longrightarrow> uint (ucast w :: 8 word) = uint w"
  by (simp add: unsigned_ucast_eq take_bit_int_eq_self)

lemma uint_narrow_16: "uint (w :: 32 word) < 65536 \<Longrightarrow> uint (ucast w :: 16 word) = uint w"
  by (simp add: unsigned_ucast_eq take_bit_int_eq_self)

lemma uint_drop_bit_19: "uint (drop_bit 19 (raw :: 32 word)) < 8192"
proof -
  have "drop_bit 19 raw AND mask 13 = drop_bit 19 raw"
    by (rule bit_word_eqI) (auto simp: bit_simps dest: bit_imp_le_length)
  then show ?thesis by (simp add: mask_eq_iff)
qed

lemma drop_bit_19_mask: "drop_bit 19 (raw :: 32 word) AND 0x1FFF = drop_bit 19 raw"
proof -
  have "(0x1FFF :: 32 word) = mask 13" by (simp add: mask_eq_exp_minus_1)
  moreover have "drop_bit 19 raw AND mask 13 = drop_bit 19 raw"
    by (rule bit_word_eqI) (auto simp: bit_simps dest: bit_imp_le_length)
  ultimately show ?thesis by simp
qed

subsection \<open>The getters at the constants of main\<close>

lemma getTemperature_val:
  "sint (getTemperature raw TEMPERATURE_BITS_MASK) = uint (raw AND 0xFF) - 20"
proof -
  define n where "n = uint (raw AND 0xFF)"
  have n0: "0 \<le> n" by (simp add: n_def)
  have n1: "n \<le> 255" unfolding n_def using uint_and_le [of raw "0xFF"] by simp
  have x: "raw AND 0xFF = word_of_int n" by (simp add: n_def)
  have a: "(ucast (word_of_int n :: 32 word) :: 16 word) = word_of_int n"
    by (rule trunc_int_to_16)
  have c: "(scast (word_of_int n :: 16 word) :: 32 word) = word_of_int n"
    using n0 n1 by (simp add: scast_eq sint_sbintrunc' signed_take_bit_int_eq_self)
  have "(word_of_int n - 20 :: 32 word) = word_of_int (n - 20)" by simp
  then have d: "(ucast (word_of_int n - 20 :: 32 word) :: 16 word) = word_of_int (n - 20)"
    by (simp only: trunc_int_to_16)
  have e: "sint (word_of_int (n - 20) :: 16 word) = n - 20"
    using n0 n1 by (intro sint_int16_small) arith+
  have "getTemperature raw TEMPERATURE_BITS_MASK = word_of_int (n - 20)"
    unfolding getTemperature_def TEMPERATURE_BITS_MASK_def Let_def
    by (simp add: x a c d)
  then show ?thesis using e by (simp only: n_def)
qed

lemma getTemperature_range:
  "- 20 \<le> sint (getTemperature raw TEMPERATURE_BITS_MASK)"
  "sint (getTemperature raw TEMPERATURE_BITS_MASK) \<le> 235"
  using uint_and_le [of raw "0xFF"] by (simp_all add: getTemperature_val)

lemma getPressure_val:
  "uint (getPressure raw PRESSURE_BITS_MASK PRESSURE_BITS_SHIFT)
     = uint (drop_bit 8 raw AND 0x7F) + 1010"
proof -
  define n where "n = uint (drop_bit 8 raw AND 0x7F)"
  have n0: "0 \<le> n" by (simp add: n_def)
  have n1: "n \<le> 127"
    unfolding n_def using uint_and_le [of "drop_bit 8 raw" "0x7F"] by simp
  have x: "drop_bit 8 raw AND 0x7F = word_of_int n" by (simp add: n_def)
  have "(word_of_int n + 1010 :: 32 word) = word_of_int (n + 1010)" by simp
  then have d: "(ucast (word_of_int n + 1010 :: 32 word) :: 16 word) = word_of_int (n + 1010)"
    by (simp only: trunc_int_to_16)
  have e: "uint (word_of_int (n + 1010) :: 16 word) = n + 1010"
    using n0 n1 by (intro uint_uint16_small) arith+
  have "getPressure raw PRESSURE_BITS_MASK PRESSURE_BITS_SHIFT = word_of_int (n + 1010)"
    unfolding getPressure_def constants_defs Let_def
    by (simp add: x d)
  then show ?thesis using e by (simp only: n_def)
qed

lemma getHumidity_val:
  "uint (getHumidity raw HUMIDITY_BITS_MASK HUMIDITY_BITS_SHIFT) = uint (drop_bit 15 raw AND 0xF)"
proof -
  have "uint (drop_bit 15 raw AND 0xF) < 256"
    using uint_and_le [of "drop_bit 15 raw" "0xF"] by simp
  then show ?thesis
    unfolding getHumidity_def constants_defs Let_def
    by (simp add: uint_narrow_8)
qed

lemma getFluidLevel_val:
  "uint (getFluidLevel raw FLUID_LEVEL_BITS_SHIFT) = uint (drop_bit 19 raw AND 0x1FFF)"
proof -
  have "uint (drop_bit 19 raw) < 65536"
    using uint_drop_bit_19 [of raw] by simp
  then show ?thesis
    unfolding getFluidLevel_def constants_defs Let_def
    by (simp add: uint_narrow_16 drop_bit_19_mask)
qed

lemma decode_values:
  "sint (temperature (decode raw)) = uint (raw AND 0xFF) - 20
   \<and> - 20 \<le> sint (temperature (decode raw)) \<and> sint (temperature (decode raw)) \<le> 235
   \<and> uint (pressure (decode raw)) = uint (drop_bit 8 raw AND 0x7F) + 1010
   \<and> uint (humidity (decode raw)) = uint (drop_bit 15 raw AND 0xF)
   \<and> uint (fluidLevel (decode raw)) = uint (drop_bit 19 raw AND 0x1FFF)"
  using getTemperature_range [of raw]
  by (simp add: decode_def getTemperature_val getPressure_val getHumidity_val
        getFluidLevel_val)

text \<open>
  Claim C1. For every 32-bit raw value the decode step yields exactly
  temperature = (raw AND 0xFF) - 20, computed without wrap-around and so between -20 and
  235, pressure = ((raw >> 8) AND 0x7F) + 1010, humidity = (raw >> 15) AND 0xF and
  fluidLevel = (raw >> 19) AND 0x1FFF, with the getters called as in \<open>main\<close>.
\<close>

theorem decode_exact:
  "sint (temperature (decode raw)) = uint (raw AND 0xFF) - 20
   \<and> - 20 \<le> sint (temperature (decode raw)) \<and> sint (temperature (decode raw)) \<le> 235
   \<and> uint (pressure (decode raw)) = uint (drop_bit 8 raw AND 0x7F) + 1010
   \<and> uint (humidity (decode raw)) = uint (drop_bit 15 raw AND 0xF)
   \<and> uint (fluidLevel (decode raw)) = uint (drop_bit 19 raw AND 0x1FFF)
   \<and> temperature (decode raw) = getTemperature raw TEMPERATURE_BITS_MASK
   \<and> pressure (decode raw) = getPressure raw PRESSURE_BITS_MASK PRESSURE_BITS_SHIFT
   \<and> humidity (decode raw) = getHumidity raw HUMIDITY_BITS_MASK HUMIDITY_BITS_SHIFT
   \<and> fluidLevel (decode raw) = getFluidLevel raw FLUID_LEVEL_BITS_SHIFT"
  using decode_values [of raw] by (simp add: decode_def)

subsection \<open>The alarm evaluator\<close>

lemma temp_bit:
  "((ucast (drop_bit i (ucast (h :: 8 word) :: 32 word) AND 0x1) :: 8 word) \<noteq> 0) = bit h i"
proof -
  have "drop_bit i (ucast h :: 32 word) AND 1 = of_bool (bit (ucast h :: 32 word) i)"
    by (simp add: and_one_eq bit_iff_odd_drop_bit mod_2_eq_odd)
  moreover have "bit (ucast h :: 32 word) i = bit h i"
    by (auto simp: bit_simps dest: bit_imp_le_length)
  ultimately show ?thesis by simp
qed

lemma countHumidityBits_loop_counts:
  "countHumidityBits_loop i h n c = c + of_nat (length (filter (bit h) [i..<unat n]))"
proof (induction i h n c rule: countHumidityBits_loop.induct)
  case (1 i h n c)
  show ?case
  proof (cases "i < unat n")
    case True
    then have u: "[i..<unat n] = i # [Suc i..<unat n]" by (simp add: upt_conv_Cons)
    show ?thesis
      using True 1
      by (subst countHumidityBits_loop.simps) (simp add: temp_bit u Let_def)
  next
    case False
    then show ?thesis by (subst countHumidityBits_loop.simps) simp
  qed
qed

lemma length_filter_upt_le: "length (filter P [0..<n]) \<le> n"
  using length_filter_le [of P "[0..<n]"] by simp

lemma uint_of_nat_small: "k < 256 \<Longrightarrow> uint (of_nat k :: 8 word) = int k"
  by (simp add: uint_nat unat_of_nat)

lemma countHumidityBits_iff:
  "(countHumidityBits h HUMIDITY_BITS \<noteq> 0) = (2 < length (filter (bit h) [0..<4]))"
proof -
  define k where "k = length (filter (bit h) [0..<4])"
  have k4: "k \<le> 4" unfolding k_def by (rule length_filter_upt_le)
  have "countHumidityBits_loop 0 h HUMIDITY_BITS 0 = of_nat k"
    by (simp add: countHumidityBits_loop_counts HUMIDITY_BITS_def k_def)
  moreover have "uint (of_nat k :: 8 word) = int k"
    using k4 by (simp add: uint_of_nat_small)
  ultimately show ?thesis
    by (simp add: countHumidityBits_def Let_def k_def)
qed

text \<open>
  Claim C2. The temperature alarm "too low" is raised exactly when temperature <= 4 (so at
  4 it is raised) and "too high" exactly when temperature > 100; the pressure alarm
  "too low" exactly when pressure < 1013 and "too high" exactly when pressure > 1135;
  "tank empty" exactly when fluidLevel <= 0, which for the unsigned type is fluidLevel = 0,
  and the fluid level alarm exactly when fluidLevel > 8000 (8001 raises it, 8000 does not).
\<close>

theorem alarm_thresholds:
  "((\<exists>v. TemperatureLow v \<in> set (alarm t p h f)) = (sint t \<le> 4))
   \<and> ((\<exists>v. TemperatureHigh v \<in> set (alarm t p h f)) = (sint t > 100))
   \<and> ((\<exists>v. PressureLow v \<in> set (alarm t p h f)) = (uint p < 1013))
   \<and> ((\<exists>v. PressureHigh v \<in> set (alarm t p h f)) = (uint p > 1135))
   \<and> ((TankEmpty \<in> set (alarm t p h f)) = (uint f \<le> 0))
   \<and> ((uint f \<le> 0) = (f = 0))
   \<and> ((\<exists>v. FluidLevelHigh v \<in> set (alarm t p h f)) = (uint f > 8000))
   \<and> TemperatureLow 4 \<in> set (alarm 4 p h f)
   \<and> FluidLevelHigh 8001 \<in> set (alarm t p h 8001)
   \<and> (\<forall>v. FluidLevelHigh v \<notin> set (alarm t p h 8000))"
  by (auto simp: alarm_def uint_0_iff)

text \<open>
  Claim C3. The humidity alarm is raised exactly when more than two of the low four bits
  of the humidity value are set, that is three or four of them; the nibble 0111 raises
  it and 0011 does not.
\<close>

theorem humidity_alarm_iff:
  "((HumidityExceeded \<in> set (alarm t p h f)) = (2 < length (filter (bit h) [0..<4])))
   \<and> ((2 < length (filter (bit h) [0..<4]))
        = (length (filter (bit h) [0..<4]) = 3 \<or> length (filter (bit h) [0..<4]) = 4))
   \<and> HumidityExceeded \<in> set (alarm t p 7 f)
   \<and> HumidityExceeded \<notin> set (alarm t p 3 f)"
proof -
  have a: "(HumidityExceeded \<in> set (alarm t p x f)) = (2 < length (filter (bit x) [0..<4]))"
    for x
    by (simp add: alarm_def countHumidityBits_iff)
  have u: "[0..<4] = [0, 1, 2, 3]" by (simp add: upt_rec)
  have b: "length (filter (bit (7 :: 8 word)) [0..<4]) = 3"
    unfolding u by simp
  have c: "length (filter (bit (3 :: 8 word)) [0..<4]) = 2"
    unfolding u by simp
  show ?thesis
    using length_filter_upt_le [of "bit h" 4]
    by (auto simp add: a b c)
qed

lemma alarm_eq_spec:
  "alarm (temperature r) (pressure r) (humidity r) (fluidLevel r) = evaluate_spec r"
  by (simp add: alarm_def evaluate_spec_def countHumidityBits_iff)

lemma decode_0:
  "decode 0 = \<lparr> temperature = - 20, pressure = 1010, humidity = 0, fluidLevel = 0 \<rparr>"
  by (simp add: decode_def getTemperature_def getPressure_def getHumidity_def
        getFluidLevel_def constants_defs)

lemma evaluate_spec_0:
  "evaluate_spec \<lparr> temperature = - 20, pressure = 1010, humidity = 0, fluidLevel = 0 \<rparr>
     = [TemperatureLow (- 20), PressureLow 1010, TankEmpty]"
  by (simp add: evaluate_spec_def)

text \<open>
  Claim C4. For every reading the report of \<open>alarm\<close> is the report of the four
  independent checks of \<open>evaluate_spec\<close>: every alarm whose condition holds is in
  it, none hides another, and the order is temperature, pressure, humidity, fluid level.
  For the raw value 0 the alarms temperature low, pressure low and tank empty are reported
  together.
\<close>

theorem alarm_is_union:
  "alarm (temperature r) (pressure r) (humidity r) (fluidLevel r) = evaluate_spec r
   \<and> alarm (temperature (decode 0)) (pressure (decode 0)) (humidity (decode 0))
        (fluidLevel (decode 0))
      = [TemperatureLow (- 20), PressureLow 1010, TankEmpty]"
  by (simp only: alarm_eq_spec decode_0 evaluate_spec_0 simp_thms)

text \<open>
  Claim C8. Decoding and evaluating are deterministic. \<open>main\<close> keeps its variables
  from one iteration to the next; whatever they hold, two evaluations on the same raw
  value give the same readings, those of \<open>decode\<close>, and the same alarm report.
\<close>

theorem decode_evaluate_pure:
  assumes "receivedData s1 = receivedData s2"
  shows "reading (main_decode s1) = reading (main_decode s2)
         \<and> reading (main_decode s1) = decode (receivedData s1)
         \<and> main_alarm (main_decode s1) = main_alarm (main_decode s2)
         \<and> main_alarm (main_decode s1) = evaluate_spec (decode (receivedData s1))"
proof -
  have a: "reading (main_decode s) = decode (receivedData s)" for s
    by (simp add: main_decode_def decode_def Let_def)
  have b: "main_alarm s = evaluate_spec (reading s)" for s
    by (simp add: main_alarm_def alarm_eq_spec)
  show ?thesis by (simp add: a b assms)
qed

theorem decode_evaluate_pure_witness:
  "receivedData \<lparr> dataString = ''0'', receivedData = 0,
        reading = \<lparr> temperature = 7, pressure = 8, humidity = 9, fluidLevel = 10 \<rparr> \<rparr>
     = receivedData \<lparr> dataString = ''00000000'', receivedData = 0,
        reading = \<lparr> temperature = 0, pressure = 0, humidity = 0, fluidLevel = 0 \<rparr> \<rparr>
   \<and> main_alarm (main_decode \<lparr> dataString = ''0'', receivedData = 0,
        reading = \<lparr> temperature = 7, pressure = 8, humidity = 9, fluidLevel = 10 \<rparr> \<rparr>)
     = main_alarm (main_decode \<lparr> dataString = ''00000000'', receivedData = 0,
        reading = \<lparr> temperature = 0, pressure = 0, humidity = 0, fluidLevel = 0 \<rparr> \<rparr>)"
  using decode_evaluate_pure [of
    "\<lparr> dataString = ''0'', receivedData = 0,
        reading = \<lparr> temperature = 7, pressure = 8, humidity = 9, fluidLevel = 10 \<rparr> \<rparr>"
    "\<lparr> dataString = ''00000000'', receivedData = 0,
        reading = \<lparr> temperature = 0, pressure = 0, humidity = 0, fluidLevel = 0 \<rparr> \<rparr>"]
  by simp

lemma getHumidity_bits:
  "bit (getHumidity raw HUMIDITY_BITS_MASK HUMIDITY_BITS_SHIFT) n \<Longrightarrow> n < 4"
proof -
  have m: "(0xF :: 32 word) = mask 4" by (simp add: mask_eq_exp_minus_1)
  show "bit (getHumidity raw HUMIDITY_BITS_MASK HUMIDITY_BITS_SHIFT) n \<Longrightarrow> n < 4"
    unfolding getHumidity_def constants_defs Let_def
    by (simp add: m bit_simps)
qed

lemma filter_upt_beyond:
  assumes "\<And>n. P n \<Longrightarrow> n < k" "k \<le> m"
  shows "filter P [0..<m] = filter P [0..<k]"
proof -
  from assms(2) obtain d where m: "m = k + d" by (auto simp: le_iff_add)
  have "[0..<m] = [0..<k] @ [k..<m]" unfolding m by (rule upt_add_eq_append) simp
  moreover have "filter P [k..<m] = []" using assms(1) by (fastforce simp: filter_empty_conv)
  ultimately show ?thesis by simp
qed

lemma popcount_uint8: "length (filter (bit (h :: 8 word)) [0..<8]) = card {n. bit h n}"
proof -
  have "{n. bit h n} = set (filter (bit h) [0..<8])"
    by (auto dest: bit_imp_le_length)
  moreover have "distinct (filter (bit h) [0..<8])" by simp
  ultimately show ?thesis by (simp only: distinct_card)
qed

text \<open>
  Claim C10. For every 32-bit input the humidity value that \<open>getHumidity\<close> returns
  for the mask 0xF and the shift 15 is at most 15, every bit that is set in it is one of
  the four bits that \<open>countHumidityBits\<close> examines, and the counter of
  \<open>countHumidityBits\<close> is the number of set bits of the whole 8-bit argument, so that
  the function returns nonzero exactly when more than two bits of the argument are set.
\<close>

theorem humidity_within_counted_bits:
  "uint (getHumidity raw HUMIDITY_BITS_MASK HUMIDITY_BITS_SHIFT) \<le> 15
   \<and> (\<forall>n. bit (getHumidity raw HUMIDITY_BITS_MASK HUMIDITY_BITS_SHIFT) n \<longrightarrow> n < 4)
   \<and> uint (countHumidityBits_loop 0 (getHumidity raw HUMIDITY_BITS_MASK HUMIDITY_BITS_SHIFT)
         HUMIDITY_BITS 0)
      = int (card {n. bit (getHumidity raw HUMIDITY_BITS_MASK HUMIDITY_BITS_SHIFT) n})
   \<and> (countHumidityBits (getHumidity raw HUMIDITY_BITS_MASK HUMIDITY_BITS_SHIFT) HUMIDITY_BITS
        \<noteq> 0)
      = (2 < card {n. bit (getHumidity raw HUMIDITY_BITS_MASK HUMIDITY_BITS_SHIFT) n})"
proof -
  define h where "h = getHumidity raw HUMIDITY_BITS_MASK HUMIDITY_BITS_SHIFT"
  have a: "uint h \<le> 15"
    unfolding h_def using uint_and_le [of "drop_bit 15 raw" "0xF"]
    by (simp add: getHumidity_val)
  have b: "bit h n \<Longrightarrow> n < 4" for n
    unfolding h_def by (rule getHumidity_bits)
  have f: "filter (bit h) [0..<8] = filter (bit h) [0..<4]"
    by (rule filter_upt_beyond [OF b]) simp_all
  have k: "length (filter (bit h) [0..<4]) \<le> 4" by (rule length_filter_upt_le)
  have "uint (countHumidityBits_loop 0 h HUMIDITY_BITS 0)
             = int (length (filter (bit h) [0..<8]))"
    using k by (simp add: countHumidityBits_loop_counts HUMIDITY_BITS_def f uint_of_nat_small)
  then have c: "uint (countHumidityBits_loop 0 h HUMIDITY_BITS 0) = int (card {n. bit h n})"
    by (simp only: popcount_uint8)
  have "(countHumidityBits h HUMIDITY_BITS \<noteq> 0) = (2 < length (filter (bit h) [0..<8]))"
    by (simp only: countHumidityBits_iff f)
  then have d: "(countHumidityBits h HUMIDITY_BITS \<noteq> 0) = (2 < card {n. bit h n})"
    by (simp only: popcount_uint8)
  show ?thesis
    using a b c d unfolding h_def by blast
qed

theorem humidity_within_counted_bits_witness:
  "bit (getHumidity 0x38000 HUMIDITY_BITS_MASK HUMIDITY_BITS_SHIFT) 2
   \<and> (2 :: nat) < 4
   \<and> uint (countHumidityBits_loop 0 (getHumidity 0x38000 HUMIDITY_BITS_MASK HUMIDITY_BITS_SHIFT)
         HUMIDITY_BITS 0) = 3"
proof -
  have h: "getHumidity 0x38000 HUMIDITY_BITS_MASK HUMIDITY_BITS_SHIFT = 7"
    by (simp add: getHumidity_def constants_defs)
  have u: "[0..<8] = [0, 1, 2, 3, 4, 5, 6, 7]" by (simp add: upt_rec)
  have "length (filter (bit (7 :: 8 word)) [0..<8]) = 3"
    unfolding u by simp
  then have b: "card {n. bit (7 :: 8 word) n} = 3"
    by (simp only: popcount_uint8)
  have "uint (countHumidityBits_loop 0 (7 :: 8 word) HUMIDITY_BITS 0)
          = int (card {n. bit (7 :: 8 word) n})"
    using humidity_within_counted_bits [of "0x38000"] unfolding h by (elim conjE)
  then have c: "uint (countHumidityBits_loop 0 (7 :: 8 word) HUMIDITY_BITS 0) = 3"
    by (simp only: b of_nat_numeral)
  have "bit (7 :: 8 word) 2" by simp
  with c show ?thesis
    unfolding h by simp
qed

subsection \<open>The round trip\<close>

lemma bits_below: "uint (w :: 32 word) < 2 ^ k \<Longrightarrow> bit w n \<Longrightarrow> n < k"
proof -
  assume a: "uint w < 2 ^ k" and b: "bit w n"
  from a have "w AND mask k = w" by (simp add: mask_eq_iff)
  then have "bit (w AND mask k) n" using b by simp
  then show "n < k" by (simp add: bit_and_iff bit_mask_iff)
qed

lemma field_bits:
  assumes "uint (t :: 32 word) \<le> 255" "uint (p :: 32 word) \<le> 127"
    "uint (h :: 32 word) \<le> 15" "uint (f :: 32 word) \<le> 8191"
  shows "bit t n \<Longrightarrow> n < 8" "bit p n \<Longrightarrow> n < 7" "bit h n \<Longrightarrow> n < 4" "bit f n \<Longrightarrow> n < 13"
  using assms bits_below [of t 8 n] bits_below [of p 7 n] bits_below [of h 4 n]
    bits_below [of f 13 n]
  by simp_all

lemma mask_numerals:
  "(0xFF :: 32 word) = mask 8" "(0x7F :: 32 word) = mask 7" "(0xF :: 32 word) = mask 4"
  "(0x1FFF :: 32 word) = mask 13"
  by (simp_all add: mask_eq_exp_minus_1)

lemma unpack_temperature:
  assumes "uint t \<le> 255" "uint p \<le> 127" "uint h \<le> 15" "uint f \<le> 8191"
  shows "pack_spec t p h f AND 0xFF = t"
  unfolding pack_spec_def mask_numerals
  by (rule bit_word_eqI) (auto simp: bit_simps dest: field_bits [OF assms])

lemma unpack_pressure:
  assumes "uint t \<le> 255" "uint p \<le> 127" "uint h \<le> 15" "uint f \<le> 8191"
  shows "drop_bit 8 (pack_spec t p h f) AND 0x7F = p"
  unfolding pack_spec_def mask_numerals
  by (rule bit_word_eqI) (auto simp: bit_simps dest: field_bits [OF assms])

lemma unpack_humidity:
  assumes "uint t \<le> 255" "uint p \<le> 127" "uint h \<le> 15" "uint f \<le> 8191"
  shows "drop_bit 15 (pack_spec t p h f) AND 0xF = h"
  unfolding pack_spec_def mask_numerals
  by (rule bit_word_eqI) (auto simp: bit_simps dest: field_bits [OF assms])

lemma unpack_fluidLevel:
  assumes "uint t \<le> 255" "uint p \<le> 127" "uint h \<le> 15" "uint f \<le> 8191"
  shows "drop_bit 19 (pack_spec t p h f) AND 0x1FFF = f"
  unfolding pack_spec_def mask_numerals
  by (rule bit_word_eqI) (auto simp: bit_simps dest: field_bits [OF assms])

lemma repack:
  "pack_spec (raw AND 0xFF) (drop_bit 8 raw AND 0x7F) (drop_bit 15 raw AND 0xF)
     (drop_bit 19 raw AND 0x1FFF) = raw"
  unfolding pack_spec_def mask_numerals
proof (rule bit_word_eqI)
  fix n
  assume n: "n < LENGTH(32)"
  consider "n < 8" | "8 \<le> n" "n < 15" | "15 \<le> n" "n < 19" | "19 \<le> n"
    by linarith
  then show "bit (raw AND mask 8 OR push_bit 8 (drop_bit 8 raw AND mask 7)
       OR push_bit 15 (drop_bit 15 raw AND mask 4)
       OR push_bit 19 (drop_bit 19 raw AND mask 13)) n = bit raw n"
    using n by cases (auto simp: bit_simps)
qed

text \<open>
  Claim C5. Round trip: for field values within their widths (temperature_raw at most
  255, pressure_raw at most 127, humidity_raw at most 15, fluid_raw at most 8191),
  decoding the value packed at the bit offsets 0, 8, 15 and 19 gives back
  temperature_raw - 20, pressure_raw + 1010, humidity_raw and fluid_raw: no field
  overlaps another. Packing the four fields cut out of any raw value gives the raw value
  back: the fields cover all of the bits 0 to 31.
\<close>

theorem pack_decode_roundtrip:
  assumes "uint temperature_raw \<le> 255" "uint pressure_raw \<le> 127"
    "uint humidity_raw \<le> 15" "uint fluid_raw \<le> 8191"
  shows "sint (temperature (decode (pack_spec temperature_raw pressure_raw humidity_raw fluid_raw)))
           = uint temperature_raw - 20
         \<and> uint (pressure (decode (pack_spec temperature_raw pressure_raw humidity_raw fluid_raw)))
           = uint pressure_raw + 1010
         \<and> uint (humidity (decode (pack_spec temperature_raw pressure_raw humidity_raw fluid_raw)))
           = uint humidity_raw
         \<and> uint (fluidLevel (decode (pack_spec temperature_raw pressure_raw humidity_raw fluid_raw)))
           = uint fluid_raw
         \<and> pack_spec (raw AND 0xFF) (drop_bit 8 raw AND 0x7F) (drop_bit 15 raw AND 0xF)
              (drop_bit 19 raw AND 0x1FFF) = raw"
  using decode_values [of "pack_spec temperature_raw pressure_raw humidity_raw fluid_raw"]
  by (simp only: unpack_temperature [OF assms] unpack_pressure [OF assms]
        unpack_humidity [OF assms] unpack_fluidLevel [OF assms] repack simp_thms)

theorem pack_decode_roundtrip_witness:
  "uint (0xFF :: 32 word) \<le> 255 \<and> uint (0 :: 32 word) \<le> 127 \<and> uint (0xF :: 32 word) \<le> 15
   \<and> uint (0x1F41 :: 32 word) \<le> 8191
   \<and> pack_spec 0xFF 0 0xF 0x1F41 = 0xFA0F80FF
   \<and> sint (temperature (decode 0xFA0F80FF)) = 235
   \<and> uint (pressure (decode 0xFA0F80FF)) = 1010
   \<and> uint (humidity (decode 0xFA0F80FF)) = 15
   \<and> uint (fluidLevel (decode 0xFA0F80FF)) = 8001"
proof -
  have p: "pack_spec 0xFF 0 0xF 0x1F41 = 0xFA0F80FF"
    by (simp add: pack_spec_def)
  show ?thesis
    using pack_decode_roundtrip [of "0xFF" 0 "0xF" "0x1F41" 0]
    by (simp add: p)
qed

subsection \<open>Reading a line\<close>

lemma flushBuffer_line: "NL \<notin> set cs \<Longrightarrow> flushBuffer (cs @ NL # rest) = Some rest"
  by (induction cs) auto

lemma flushBuffer_no_newline: "NL \<notin> set cs \<Longrightarrow> flushBuffer cs = None"
  by (induction cs) auto

lemma getBuffer_loop_line:
  assumes "NL \<notin> set line" "length input = 9" "i \<le> 8"
  shows "getBuffer_loop i input HEX_INPUT_BUFFER_SIZE (line @ NL # rest)
           = Some (if 8 - i < length line then take i input @ take (8 - i) line @ [NUL]
                   else take i input @ line @ NUL # drop (i + length line + 1) input, rest)"
  using assms
proof (induction line arbitrary: i input)
  case Nil
  then show ?case
    by (subst getBuffer_loop.simps)
      (simp add: HEX_INPUT_BUFFER_SIZE_def int_to_char_def upd_conv_take_nth_drop)
next
  case (Cons c cs)
  from Cons.prems have c: "c \<noteq> NL" and cs: "NL \<notin> set cs" by auto
  show ?case
  proof (cases "i = 8")
    case True
    have "getBuffer_loop 9 (input[8 := NUL]) HEX_INPUT_BUFFER_SIZE rest
            = Some (input[8 := NUL], rest)"
      by (subst getBuffer_loop.simps) (simp add: HEX_INPUT_BUFFER_SIZE_def)
    moreover have "input[8 := NUL] = take 8 input @ [NUL]"
      using Cons.prems(2) by (simp add: upd_conv_take_nth_drop)
    ultimately show ?thesis
      using True c cs
      by (subst getBuffer_loop.simps)
        (simp add: HEX_INPUT_BUFFER_SIZE_def int_to_char_def flushBuffer_line)
  next
    case False
    with Cons.prems have i: "i < 8" by simp
    have len: "length (input[i := c]) = 9" using Cons.prems by simp
    have t: "take (Suc i) (input[i := c]) = take i input @ [c]"
      using i Cons.prems(2) by (simp add: take_Suc_conv_app_nth)
    have d: "drop (Suc i + length cs + 1) (input[i := c]) = drop (i + length (c # cs) + 1) input"
      by simp
    have k: "take (8 - i) (c # cs) = c # take (8 - Suc i) cs"
    proof -
      from i have "8 - i = Suc (8 - Suc i)" by arith
      then show ?thesis by (simp only: take_Suc_Cons)
    qed
    have "getBuffer_loop i input HEX_INPUT_BUFFER_SIZE ((c # cs) @ NL # rest)
            = getBuffer_loop (Suc i) (input[i := c]) HEX_INPUT_BUFFER_SIZE (cs @ NL # rest)"
      using i c
      by (subst getBuffer_loop.simps) (simp add: HEX_INPUT_BUFFER_SIZE_def int_to_char_def)
    also have "\<dots> = Some (if 8 - Suc i < length cs
                   then take (Suc i) (input[i := c]) @ take (8 - Suc i) cs @ [NUL]
                   else take (Suc i) (input[i := c]) @ cs @ NUL
                          # drop (Suc i + length cs + 1) (input[i := c]), rest)"
      using i by (intro Cons.IH [OF cs len]) simp
    also have "\<dots> = Some (if 8 - i < length (c # cs)
                   then take i input @ take (8 - i) (c # cs) @ [NUL]
                   else take i input @ (c # cs) @ NUL # drop (i + length (c # cs) + 1) input, rest)"
      using i unfolding t d k by auto
    finally show ?thesis .
  qed
qed

lemma getBuffer_line:
  assumes "NL \<notin> set line" "length input = 9"
  shows "getBuffer input HEX_INPUT_BUFFER_SIZE (line @ NL # rest)
           = Some (if 8 < length line then take 8 line @ [NUL]
                   else line @ NUL # drop (length line + 1) input, rest)"
  unfolding getBuffer_def
  using getBuffer_loop_line [OF assms, of 0 rest] by simp

text \<open>
  Claim C9. For a line of more than 8 characters \<open>getBuffer\<close> stores the first 8
  characters, puts \<open>NUL\<close> at index 8 and discards the rest of the line up to and
  including the newline; a line of at most 8 characters is stored unchanged, with
  \<open>NUL\<close> behind it. In both cases the input that is left starts after the newline,
  and \<open>getBuffer\<close> returns.
\<close>

theorem getBuffer_stores_line:
  assumes "NL \<notin> set line" "length input = 9"
  shows "getBuffer input HEX_INPUT_BUFFER_SIZE (line @ NL # rest)
           = Some (if 8 < length line then take 8 line @ [NUL]
                   else line @ NUL # drop (length line + 1) input, rest)
         \<and> (\<exists>b. getBuffer input HEX_INPUT_BUFFER_SIZE (line @ NL # rest) = Some (b, rest)
               \<and> length b = 9
               \<and> (if 8 < length line then take 8 b = take 8 line \<and> b ! 8 = NUL
                   else take (length line) b = line \<and> b ! length line = NUL))"
proof -
  let ?b = "if 8 < length line then take 8 line @ [NUL]
            else line @ NUL # drop (length line + 1) input"
  have g: "getBuffer input HEX_INPUT_BUFFER_SIZE (line @ NL # rest) = Some (?b, rest)"
    by (rule getBuffer_line [OF assms])
  have "length ?b = 9" using assms(2) by simp
  moreover have "if 8 < length line then take 8 ?b = take 8 line \<and> ?b ! 8 = NUL
                 else take (length line) ?b = line \<and> ?b ! length line = NUL"
    by (simp add: nth_append)
  ultimately show ?thesis using g by blast
qed

theorem getBuffer_stores_line_witness:
  "NL \<notin> set ''123456789abc'' \<and> length (replicate 9 NUL) = 9
   \<and> getBuffer (replicate 9 NUL) HEX_INPUT_BUFFER_SIZE (''123456789abc'' @ NL # ''1F'' @ [NL])
        = Some (take 8 ''123456789abc'' @ [NUL], ''1F'' @ [NL])"
proof -
  have n: "NL \<notin> set ''123456789abc''" by (simp add: NL_def)
  have l: "length (replicate 9 NUL) = 9" by simp
  show ?thesis
    using getBuffer_stores_line [OF n l, of "''1F'' @ [NL]"] n by simp
qed

subsection \<open>Characters\<close>

lemma of_char_NUL: "(of_char NUL :: nat) = 0"
  by (simp add: NUL_def)

lemma NUL_iff: "(c = NUL) = ((of_char c :: nat) = 0)"
  using of_char_eq_iff [of c NUL, where ?'a = nat] by (simp add: of_char_NUL)

lemma of_char_toupper:
  "(of_char (toupper c) :: nat)
     = (if 97 \<le> (of_char c :: nat) \<and> (of_char c :: nat) \<le> 122 then of_char c - 32 else of_char c)"
  by (auto simp: toupper_def)

lemma toupper_not_NUL: "c \<noteq> NUL \<Longrightarrow> toupper c \<noteq> NUL"
  by (auto simp: NUL_iff of_char_toupper)

lemma char_eq_code: "(c = d) = ((of_char c :: nat) = of_char d)"
  by simp

lemma hex_digit_spec_codes:
  "hex_digit_spec c = ((48 \<le> (of_char c :: nat) \<and> (of_char c :: nat) \<le> 57)
                  \<or> (65 \<le> (of_char c :: nat) \<and> (of_char c :: nat) \<le> 70))"
proof -
  have "hex_digit_spec c = ((of_char c :: nat) \<in> {48, 49, 50, 51, 52, 53, 54, 55, 56, 57, 65, 66, 67, 68, 69, 70})"
    unfolding hex_digit_spec_def
    by (simp only: list.set insert_iff empty_iff char_eq_code [of c]) simp
  also have "\<dots> = ((48 \<le> (of_char c :: nat) \<and> (of_char c :: nat) \<le> 57)
                  \<or> (65 \<le> (of_char c :: nat) \<and> (of_char c :: nat) \<le> 70))"
    by (simp only: insert_iff empty_iff) arith
  finally show ?thesis .
qed

lemma check_char_iff:
  "(\<not> isdigit c \<and> ((of_char c :: nat) < of_char CHR ''A'' \<or> (of_char c :: nat) > of_char CHR ''F''))
     = (\<not> hex_digit_spec c)"
  by (auto simp: hex_digit_spec_codes isdigit_def)

subsection \<open>The loops over the buffer\<close>

lemma c_str_cut: "c_str (xs @ NUL # t) = c_str xs"
  unfolding c_str_def
  by (induction xs) auto

lemma c_str_append_NUL: "NUL \<notin> set s \<Longrightarrow> c_str (s @ NUL # t) = s"
  unfolding c_str_def
  by (induction s) auto

lemma c_str_no_NUL: "NUL \<notin> set (c_str xs)"
  unfolding c_str_def using set_takeWhileD by fastforce

lemma c_str_decompose: "\<exists>t. xs @ [NUL] = c_str xs @ NUL # t"
  unfolding c_str_def
  by (induction xs) auto

lemma nth_middle: "length a = i \<Longrightarrow> (a @ x # t) ! i = x"
  by (simp add: nth_append)

lemma update_middle: "length a = i \<Longrightarrow> (a @ x # t)[i := y] = a @ y # t"
  by (simp add: list_update_append)

lemma dataToUpperCase_loop_str:
  assumes "NUL \<notin> set s" "length a = i" "i + length s \<le> unat m"
  shows "dataToUpperCase_loop i (a @ s @ NUL # t) m = a @ map toupper s @ NUL # t"
  using assms
proof (induction s arbitrary: a i)
  case Nil
  then show ?case
    by (subst dataToUpperCase_loop.simps) (simp add: nth_middle)
next
  case (Cons c cs)
  from Cons.prems have c: "c \<noteq> NUL" and cs: "NUL \<notin> set cs" by auto
  have "dataToUpperCase_loop i (a @ (c # cs) @ NUL # t) m
          = dataToUpperCase_loop (Suc i) ((a @ [toupper c]) @ cs @ NUL # t) m"
    using Cons.prems c
    by (subst dataToUpperCase_loop.simps) (simp add: nth_middle update_middle)
  also have "\<dots> = (a @ [toupper c]) @ map toupper cs @ NUL # t"
    using Cons.prems by (intro Cons.IH [OF cs]) simp_all
  finally show ?case by simp
qed

lemma flushData_loop_str:
  assumes "NUL \<notin> set s" "length a = i" "i + length s \<le> unat m"
  shows "flushData_loop i (a @ s @ NUL # t) m = a @ replicate (length s) NUL @ NUL # t"
  using assms
proof (induction s arbitrary: a i)
  case Nil
  then show ?case
    by (subst flushData_loop.simps) (simp add: nth_middle)
next
  case (Cons c cs)
  from Cons.prems have c: "c \<noteq> NUL" and cs: "NUL \<notin> set cs" by auto
  have "flushData_loop i (a @ (c # cs) @ NUL # t) m
          = flushData_loop (Suc i) ((a @ [NUL]) @ cs @ NUL # t) m"
    using Cons.prems c
    by (subst flushData_loop.simps) (simp add: nth_middle update_middle)
  also have "\<dots> = (a @ [NUL]) @ replicate (length cs) NUL @ NUL # t"
    using Cons.prems by (intro Cons.IH [OF cs]) simp_all
  finally show ?case by simp
qed

lemma checkEnteredData_loop_str:
  assumes "NUL \<notin> set s" "length a = i" "i + length s \<le> unat m"
  shows "checkEnteredData_loop i (a @ s @ NUL # t) m = list_all hex_digit_spec s"
  using assms
proof (induction s arbitrary: a i)
  case Nil
  then show ?case
    by (subst checkEnteredData_loop.simps) (simp add: nth_middle)
next
  case (Cons c cs)
  from Cons.prems have c: "c \<noteq> NUL" and cs: "NUL \<notin> set cs" by auto
  have "checkEnteredData_loop (Suc i) ((a @ [c]) @ cs @ NUL # t) m = list_all hex_digit_spec cs"
    using Cons.prems by (intro Cons.IH [OF cs]) simp_all
  then show ?case
    using Cons.prems c check_char_iff [of c]
    by (subst checkEnteredData_loop.simps) (auto simp: nth_middle)
qed

lemma dataToUpperCase_str:
  "NUL \<notin> set s \<Longrightarrow> length s \<le> unat m
     \<Longrightarrow> dataToUpperCase (s @ NUL # t) m = map toupper s @ NUL # t"
  unfolding dataToUpperCase_def
  using dataToUpperCase_loop_str [of s "[]" 0 m t] by simp

lemma flushData_str:
  "NUL \<notin> set s \<Longrightarrow> length s \<le> unat m
     \<Longrightarrow> flushData (s @ NUL # t) m = replicate (length s) NUL @ NUL # t"
  unfolding flushData_def
  using flushData_loop_str [of s "[]" 0 m t] by simp

lemma checkEnteredData_str:
  "NUL \<notin> set s \<Longrightarrow> length s \<le> unat m
     \<Longrightarrow> checkEnteredData (s @ NUL # t) m = list_all hex_digit_spec s"
  unfolding checkEnteredData_def
  using checkEnteredData_loop_str [of s "[]" 0 m t] by simp

subsection \<open>One pass through the input loop\<close>

lemma length_c_str_le: "length (c_str xs) \<le> length xs"
  unfolding c_str_def by (rule length_takeWhile_le)

lemma toupper_no_NUL: "NUL \<notin> set s \<Longrightarrow> NUL \<notin> set (map toupper s)"
  using toupper_not_NUL by (metis (no_types) image_iff list.set_map)

lemma getBuffer_line_str:
  assumes "NL \<notin> set line" "length input = 9"
  shows "\<exists>t. length t = 8 - length (c_str (take 8 line))
           \<and> getBuffer input HEX_INPUT_BUFFER_SIZE (line @ NL # rest)
               = Some (c_str (take 8 line) @ NUL # t, rest)"
proof (cases "8 < length line")
  case True
  obtain t where t: "take 8 line @ [NUL] = c_str (take 8 line) @ NUL # t"
    using c_str_decompose by blast
  from True have "length (take 8 line @ [NUL]) = 9" by simp
  then have "length (c_str (take 8 line) @ NUL # t) = 9" by (simp only: t)
  then have "length t = 8 - length (c_str (take 8 line))" by simp
  then show ?thesis
    using True t by (auto simp: getBuffer_line [OF assms])
next
  case False
  then have l: "take 8 line = line" by simp
  obtain t where t: "line @ [NUL] = c_str line @ NUL # t"
    using c_str_decompose by blast
  have b: "line @ NUL # drop (length line + 1) input
             = c_str line @ NUL # (t @ drop (length line + 1) input)"
    using t by (metis append.assoc append_Cons append_Nil)
  have "length (line @ NUL # drop (length line + 1) input) = 9"
    using False assms(2) by simp
  then have "length (c_str line @ NUL # (t @ drop (length line + 1) input)) = 9"
    by (simp only: b)
  then have n: "length (t @ drop (length line + 1) input) = 8 - length (c_str line)"
    by simp
  have "getBuffer input HEX_INPUT_BUFFER_SIZE (line @ NL # rest)
          = Some (c_str line @ NUL # (t @ drop (length line + 1) input), rest)"
    using False by (simp only: getBuffer_line [OF assms] b if_False)
  with n show ?thesis
    unfolding l by blast
qed

lemma enterData_body_str:
  assumes "getBuffer input HEX_INPUT_BUFFER_SIZE stdin = Some (s @ NUL # t, rest)"
    "NUL \<notin> set s" "length s \<le> 8"
  shows "enterData_body input MAX_HEX_DIGITS HEX_INPUT_BUFFER_SIZE stdin
     = Some (if s = [] then Again (NUL # t) rest
             else if map toupper s = ''END'' then Exit 0
             else if \<not> list_all hex_digit_spec (map toupper s)
               then Again (replicate (length s) NUL @ NUL # t) rest
             else Break (map toupper s @ NUL # t) rest)"
proof (cases "s = []")
  case True
  have "flushData (NUL # t) HEX_INPUT_BUFFER_SIZE = NUL # t"
    using flushData_str [of "[]" HEX_INPUT_BUFFER_SIZE t] by simp
  then show ?thesis
    using True assms(1) by (simp add: enterData_body_def)
next
  case False
  define u where "u = map toupper s"
  have un: "NUL \<notin> set u" unfolding u_def by (rule toupper_no_NUL [OF assms(2)])
  have ul: "length u = length s" by (simp add: u_def)
  have u0: "u \<noteq> []" using False by (simp add: u_def)
  have s0: "(s @ NUL # t) ! 0 \<noteq> NUL"
    using False assms(2) by (cases s) auto
  have up: "dataToUpperCase (s @ NUL # t) MAX_HEX_DIGITS = u @ NUL # t"
    unfolding u_def using assms(2,3) by (intro dataToUpperCase_str) (simp_all add: MAX_HEX_DIGITS_def)
  have u1: "(u @ NUL # t) ! 0 \<noteq> NUL"
    using u0 un by (cases u) auto
  have e: "checkIfEnd (u @ NUL # t) = (u = ''END'')"
    by (simp add: checkIfEnd_def c_str_append_NUL [OF un])
  have c: "checkEnteredData (u @ NUL # t) MAX_HEX_DIGITS = list_all hex_digit_spec u"
    using un ul assms(3) by (intro checkEnteredData_str) (simp_all add: MAX_HEX_DIGITS_def)
  have f: "flushData (u @ NUL # t) HEX_INPUT_BUFFER_SIZE = replicate (length s) NUL @ NUL # t"
    using flushData_str [of u HEX_INPUT_BUFFER_SIZE t] un ul assms(3)
    by (simp add: HEX_INPUT_BUFFER_SIZE_def)
  show ?thesis
    using False
    by (simp add: enterData_body_def assms(1) s0 up u1 e c f flip: u_def)
qed

lemma enterData_body_line:
  assumes "NL \<notin> set line" "length input = 9"
  shows "\<exists>t. length t = 8 - length (c_str (take 8 line))
     \<and> enterData_body input MAX_HEX_DIGITS HEX_INPUT_BUFFER_SIZE (line @ NL # rest)
     = Some (if c_str (take 8 line) = [] then Again (NUL # t) rest
             else if map toupper (c_str (take 8 line)) = ''END'' then Exit 0
             else if \<not> list_all hex_digit_spec (map toupper (c_str (take 8 line)))
               then Again (replicate (length (c_str (take 8 line))) NUL @ NUL # t) rest
             else Break (map toupper (c_str (take 8 line)) @ NUL # t) rest)"
proof -
  obtain t where t: "length t = 8 - length (c_str (take 8 line))"
    and g: "getBuffer input HEX_INPUT_BUFFER_SIZE (line @ NL # rest)
               = Some (c_str (take 8 line) @ NUL # t, rest)"
    using getBuffer_line_str [OF assms] by blast
  have "length (c_str (take 8 line)) \<le> 8"
    using length_c_str_le [of "take 8 line"] by simp
  from enterData_body_str [OF g c_str_no_NUL this] t show ?thesis by blast
qed

lemma END_not_hex: "\<not> list_all hex_digit_spec ''END''"
  by (simp add: hex_digit_spec_def)

lemma c_str_id: "NUL \<notin> set xs \<Longrightarrow> c_str xs = xs"
  unfolding c_str_def by (induction xs) auto

lemma stored_plain_line:
  "NUL \<notin> set line \<Longrightarrow> length line \<le> 8 \<Longrightarrow> c_str (take 8 line) = line"
  by (simp add: c_str_id)

lemma END_plain_line:
  assumes "NUL \<notin> set line"
  shows "(map toupper (c_str (take 8 line)) = ''END'') = (map toupper line = ''END'')"
proof
  assume a: "map toupper (c_str (take 8 line)) = ''END''"
  have "NUL \<notin> set (take 8 line)" using assms by (meson in_set_takeD)
  then have c: "c_str (take 8 line) = take 8 line"
    by (rule c_str_id)
  from a have "length (map toupper (c_str (take 8 line))) = 3" by simp
  then have "length (take 8 line) = 3" by (simp add: c)
  then have "take 8 line = line" by (simp add: min_def split: if_splits)
  with a c show "map toupper line = ''END''" by simp
next
  assume a: "map toupper line = ''END''"
  then have "length (map toupper line) = 3" by simp
  then have "length line \<le> 8" by simp
  then have "c_str (take 8 line) = line" by (rule stored_plain_line [OF assms])
  with a show "map toupper (c_str (take 8 line)) = ''END''"
    by (simp only:)
qed

lemma getchar_tail: "getchar stdin = (r, stdin') \<Longrightarrow> set stdin' \<subseteq> set stdin"
  by (cases stdin) auto

lemma getchar_no_newline:
  "getchar stdin = (r, stdin') \<Longrightarrow> NL \<notin> set stdin \<Longrightarrow> int_to_char r \<noteq> NL"
  by (cases stdin) (auto simp: int_to_char_def NL_def)

lemma getBuffer_loop_no_newline:
  "NL \<notin> set stdin \<Longrightarrow> i < 9 \<Longrightarrow> getBuffer_loop i input HEX_INPUT_BUFFER_SIZE stdin = None"
proof (induction "8 - i" arbitrary: i input stdin)
  case 0
  then have i: "i = 8" by simp
  obtain r stdin' where g: "getchar stdin = (r, stdin')" by (cases "getchar stdin")
  have n: "NL \<notin> set stdin'" using getchar_tail [OF g] 0(2) by auto
  show ?case
    using getchar_no_newline [OF g 0(2)] flushBuffer_no_newline [OF n]
    by (subst getBuffer_loop.simps) (simp add: HEX_INPUT_BUFFER_SIZE_def i g)
next
  case (Suc k)
  then have i: "i < 8" by simp
  obtain r stdin' where g: "getchar stdin = (r, stdin')" by (cases "getchar stdin")
  have n: "NL \<notin> set stdin'" using getchar_tail [OF g] Suc(3) by auto
  have "getBuffer_loop (Suc i) (input[i := int_to_char r]) HEX_INPUT_BUFFER_SIZE stdin' = None"
    using Suc(2) i by (intro Suc(1) [OF _ n]) simp_all
  then show ?case
    using getchar_no_newline [OF g Suc(3)] i
    by (subst getBuffer_loop.simps) (simp add: HEX_INPUT_BUFFER_SIZE_def g)
qed

lemma split_first_newline:
  "NL \<in> set stdin \<Longrightarrow> \<exists>line rest. stdin = line @ NL # rest \<and> NL \<notin> set line"
  by (metis split_list_first)

lemma getBuffer_Some_line:
  assumes "getBuffer input HEX_INPUT_BUFFER_SIZE stdin = Some (b, r)" "length input = 9"
  shows "\<exists>line. stdin = line @ NL # r \<and> NL \<notin> set line"
proof (cases "NL \<in> set stdin")
  case False
  then have "getBuffer input HEX_INPUT_BUFFER_SIZE stdin = None"
    unfolding getBuffer_def by (intro getBuffer_loop_no_newline) simp_all
  with assms(1) show ?thesis by simp
next
  case True
  then obtain line rest where s: "stdin = line @ NL # rest" and n: "NL \<notin> set line"
    using split_first_newline by blast
  from getBuffer_line [OF n assms(2), of rest] assms(1) have "r = rest"
    unfolding s by simp
  with s n show ?thesis by blast
qed

lemma enterData_body_Some_line:
  assumes "enterData_body input MAX_HEX_DIGITS HEX_INPUT_BUFFER_SIZE stdin = Some p"
    "length input = 9"
  shows "\<exists>line rest. stdin = line @ NL # rest \<and> NL \<notin> set line"
proof -
  from assms(1) obtain b r where "getBuffer input HEX_INPUT_BUFFER_SIZE stdin = Some (b, r)"
    unfolding enterData_body_def by (auto split: option.splits)
  from getBuffer_Some_line [OF this assms(2)] show ?thesis by blast
qed

text \<open>What one pass leaves behind: the cases of \<open>enterData_body_line\<close>, one by one.\<close>

lemma enterData_body_cases:
  assumes "enterData_body input MAX_HEX_DIGITS HEX_INPUT_BUFFER_SIZE stdin = Some p"
    "length input = 9"
  shows "\<exists>line rest. stdin = line @ NL # rest \<and> NL \<notin> set line
     \<and> (case p of
          Again b r \<Rightarrow> length b = 9 \<and> r = rest
            \<and> (c_str (take 8 line) = []
                \<or> (map toupper (c_str (take 8 line)) \<noteq> ''END''
                    \<and> \<not> list_all hex_digit_spec (map toupper (c_str (take 8 line)))))
        | Exit status \<Rightarrow> status = 0 \<and> map toupper (c_str (take 8 line)) = ''END''
        | Break b r \<Rightarrow> length b = 9 \<and> r = rest
            \<and> c_str b = map toupper (c_str (take 8 line))
            \<and> c_str (take 8 line) \<noteq> []
            \<and> list_all hex_digit_spec (map toupper (c_str (take 8 line))))"
proof -
  obtain line rest where s: "stdin = line @ NL # rest" and n: "NL \<notin> set line"
    using enterData_body_Some_line [OF assms] by blast
  define u where "u = map toupper (c_str (take 8 line))"
  obtain t where t: "length t = 8 - length (c_str (take 8 line))" and
    b: "enterData_body input MAX_HEX_DIGITS HEX_INPUT_BUFFER_SIZE (line @ NL # rest)
     = Some (if c_str (take 8 line) = [] then Again (NUL # t) rest
             else if u = ''END'' then Exit 0
             else if \<not> list_all hex_digit_spec u
               then Again (replicate (length (c_str (take 8 line))) NUL @ NUL # t) rest
             else Break (u @ NUL # t) rest)"
    unfolding u_def using enterData_body_line [OF n assms(2)] by blast
  have l: "length (c_str (take 8 line)) \<le> 8"
    using length_c_str_le [of "take 8 line"] by simp
  have un: "NUL \<notin> set u"
    unfolding u_def by (rule toupper_no_NUL [OF c_str_no_NUL])
  have ul: "length u = length (c_str (take 8 line))" by (simp add: u_def)
  have p: "p = (if c_str (take 8 line) = [] then Again (NUL # t) rest
             else if u = ''END'' then Exit 0
             else if \<not> list_all hex_digit_spec u
               then Again (replicate (length (c_str (take 8 line))) NUL @ NUL # t) rest
             else Break (u @ NUL # t) rest)"
    using assms(1) b unfolding s by simp
  have "case p of
          Again b r \<Rightarrow> length b = 9 \<and> r = rest
            \<and> (c_str (take 8 line) = [] \<or> (u \<noteq> ''END'' \<and> \<not> list_all hex_digit_spec u))
        | Exit status \<Rightarrow> status = 0 \<and> u = ''END''
        | Break b r \<Rightarrow> length b = 9 \<and> r = rest \<and> c_str b = u
            \<and> c_str (take 8 line) \<noteq> [] \<and> list_all hex_digit_spec u"
    unfolding p using t l ul by (auto simp: c_str_append_NUL [OF un])
  then show ?thesis using s n unfolding u_def by blast
qed

subsection \<open>The input loop\<close>

lemma enterData_result:
  assumes "enterData input MAX_HEX_DIGITS HEX_INPUT_BUFFER_SIZE stdin = Some y"
    and "length input = 9"
  shows "\<exists>pre line rest. stdin = pre @ line @ NL # rest \<and> NL \<notin> set line
      \<and> (case y of
            Exited status \<Rightarrow> status = 0 \<and> map toupper (c_str (take 8 line)) = ''END''
          | Returned b r \<Rightarrow> length b = 9 \<and> r = rest
              \<and> c_str b = map toupper (c_str (take 8 line))
              \<and> c_str (take 8 line) \<noteq> []
              \<and> list_all hex_digit_spec (map toupper (c_str (take 8 line))))"
proof -
  let ?R = "\<lambda>line rest y. (case y of
            Exited status \<Rightarrow> status = 0 \<and> map toupper (c_str (take 8 line)) = ''END''
          | Returned b r \<Rightarrow> length b = 9 \<and> r = rest
              \<and> c_str b = map toupper (c_str (take 8 line))
              \<and> c_str (take 8 line) \<noteq> []
              \<and> list_all hex_digit_spec (map toupper (c_str (take 8 line))))"
  let ?Q = "\<lambda>stdin y. \<exists>pre line rest. stdin = pre @ line @ NL # rest \<and> NL \<notin> set line
      \<and> ?R line rest y"
  let ?P = "\<lambda>input m sz stdin y.
     m = MAX_HEX_DIGITS \<longrightarrow> sz = HEX_INPUT_BUFFER_SIZE \<longrightarrow> length input = 9 \<longrightarrow> ?Q stdin y"
  have "?P input MAX_HEX_DIGITS HEX_INPUT_BUFFER_SIZE stdin y"
  proof (rule enterData.raw_induct [where P = ?P, OF _ assms(1)])
    fix f :: "char list \<Rightarrow> uint8_t \<Rightarrow> uint8_t \<Rightarrow> char list \<Rightarrow> outcome option"
      and input :: "char list" and m sz stdin y
    assume IH: "\<And>input m sz stdin y. f input m sz stdin = Some y \<Longrightarrow> ?P input m sz stdin y"
    assume step: "(case enterData_body input m sz stdin of
        None \<Rightarrow> None
      | Some (Again enteredData' stdin') \<Rightarrow> f enteredData' m sz stdin'
      | Some (Exit status) \<Rightarrow> Some (Exited status)
      | Some (Break enteredData' stdin') \<Rightarrow> Some (Returned enteredData' stdin')) = Some y"
    show "?P input m sz stdin y"
    proof (intro impI)
      assume m: "m = MAX_HEX_DIGITS" and sz: "sz = HEX_INPUT_BUFFER_SIZE"
        and len: "length input = 9"
      from step obtain p where
        p: "enterData_body input MAX_HEX_DIGITS HEX_INPUT_BUFFER_SIZE stdin = Some p"
        unfolding m sz by (cases "enterData_body input MAX_HEX_DIGITS HEX_INPUT_BUFFER_SIZE stdin") simp_all
      obtain line rest where s: "stdin = line @ NL # rest" and n: "NL \<notin> set line"
        and c: "case p of
          Again b r \<Rightarrow> length b = 9 \<and> r = rest
            \<and> (c_str (take 8 line) = []
                \<or> (map toupper (c_str (take 8 line)) \<noteq> ''END''
                    \<and> \<not> list_all hex_digit_spec (map toupper (c_str (take 8 line)))))
        | Exit status \<Rightarrow> status = 0 \<and> map toupper (c_str (take 8 line)) = ''END''
        | Break b r \<Rightarrow> length b = 9 \<and> r = rest
            \<and> c_str b = map toupper (c_str (take 8 line))
            \<and> c_str (take 8 line) \<noteq> []
            \<and> list_all hex_digit_spec (map toupper (c_str (take 8 line)))"
        using enterData_body_cases [OF p len] by blast
      show "?Q stdin y"
      proof (cases p)
        case (Again b r)
        with step p have e: "f b m sz r = Some y"
          unfolding m sz by simp
        from c Again have b9: "length b = 9" and r: "r = rest" by simp_all
        from IH [OF e] m sz b9 have "?Q r y" by blast
        then obtain pre line' rest' where
          r': "r = pre @ line' @ NL # rest'" and n': "NL \<notin> set line'"
          and c': "?R line' rest' y"
          by blast
        have "stdin = (line @ NL # pre) @ line' @ NL # rest'"
          unfolding s using r r' by simp
        with n' c' show ?thesis by blast
      next
        case (Exit status)
        with step p have y: "y = Exited status" unfolding m sz by simp
        have "stdin = [] @ line @ NL # rest" using s by simp
        moreover have "?R line rest y"
          using c Exit y by simp
        ultimately show ?thesis using n by blast
      next
        case (Break b r)
        with step p have y: "y = Returned b r" unfolding m sz by simp
        have "stdin = [] @ line @ NL # rest" using s by simp
        moreover have "?R line rest y"
          using c Break y by simp
        ultimately show ?thesis using n by blast
      qed
    qed
  qed
  with assms(2) show ?thesis by blast
qed

lemma body_lowercase_end:
  "enterData_body (replicate 9 NUL) MAX_HEX_DIGITS HEX_INPUT_BUFFER_SIZE (''end'' @ [NL])
     = Some (Exit 0)"
  by code_simp

lemma enterData_lowercase_end:
  "enterData (replicate 9 NUL) MAX_HEX_DIGITS HEX_INPUT_BUFFER_SIZE (''end'' @ [NL])
     = Some (Exited 0)"
  by code_simp

text \<open>
  Claim C6 says that only the line \<open>END\<close>, compared case-sensitively, ends the
  program. \<open>enterData\<close> converts the buffer to upper case before \<open>checkIfEnd\<close>
  compares it: the line \<open>end\<close> ends the program with status 0 as well.
\<close>

theorem lowercase_end_shuts_down:
  "enterData_body (replicate 9 NUL) MAX_HEX_DIGITS HEX_INPUT_BUFFER_SIZE (''end'' @ [NL])
     = Some (Exit 0)
   \<and> enterData (replicate 9 NUL) MAX_HEX_DIGITS HEX_INPUT_BUFFER_SIZE (''end'' @ [NL])
     = Some (Exited 0)
   \<and> ''end'' \<noteq> ''END''"
  using body_lowercase_end enterData_lowercase_end by simp

lemma body_overlong:
  "enterData_body (replicate 9 NUL) MAX_HEX_DIGITS HEX_INPUT_BUFFER_SIZE (''12345678Z'' @ [NL])
     = Some (Break (''12345678'' @ [NUL]) [])"
  by code_simp

text \<open>
  Claim C7 says that a line is accepted only if every character of it is a hexadecimal
  digit after the conversion to upper case. The line \<open>12345678Z\<close> is accepted: only
  its first 8 characters reach the buffer and the check.
\<close>

theorem overlong_line_accepted:
  "enterData_body (replicate 9 NUL) MAX_HEX_DIGITS HEX_INPUT_BUFFER_SIZE (''12345678Z'' @ [NL])
     = Some (Break (''12345678'' @ [NUL]) [])
   \<and> \<not> list_all hex_digit_spec (map toupper ''12345678Z'')"
proof -
  have "toupper CHR ''Z'' = CHR ''Z''" by (simp add: toupper_def)
  then have "\<not> list_all hex_digit_spec (map toupper ''12345678Z'')"
    by (simp add: hex_digit_spec_def)
  with body_overlong show ?thesis by simp
qed

text \<open>
  Claim C6, amended. For every input line the pass through the input loop ends the
  program, with exit status 0, exactly when the first 8 characters of the line, up to a
  \<open>NUL\<close> byte if there is one, read \<open>END\<close> after the conversion to upper case; for
  a line without \<open>NUL\<close> bytes that is when the line itself reads \<open>END\<close> after the
  conversion, in whatever case it was typed. No other line ends the program: when
  \<open>enterData\<close> ends the program, the status is 0 and the input holds such a line.
\<close>

theorem shutdown_iff_normalised_END:
  assumes "NL \<notin> set line" "length input = 9"
  shows "((\<exists>status. enterData_body input MAX_HEX_DIGITS HEX_INPUT_BUFFER_SIZE (line @ NL # rest)
              = Some (Exit status))
            = (map toupper (c_str (take 8 line)) = ''END''))
         \<and> ((enterData_body input MAX_HEX_DIGITS HEX_INPUT_BUFFER_SIZE (line @ NL # rest)
              = Some (Exit 0))
            = (map toupper (c_str (take 8 line)) = ''END''))
         \<and> (NUL \<notin> set line \<longrightarrow>
              (enterData_body input MAX_HEX_DIGITS HEX_INPUT_BUFFER_SIZE (line @ NL # rest)
                 = Some (Exit 0))
              = (map toupper line = ''END''))
         \<and> (map toupper (c_str (take 8 line)) = ''END'' \<longrightarrow>
              enterData input MAX_HEX_DIGITS HEX_INPUT_BUFFER_SIZE (line @ NL # rest)
                 = Some (Exited 0))
         \<and> (\<forall>stdin status.
              enterData input MAX_HEX_DIGITS HEX_INPUT_BUFFER_SIZE stdin = Some (Exited status)
              \<longrightarrow> status = 0
                  \<and> (\<exists>pre l r. stdin = pre @ l @ NL # r \<and> NL \<notin> set l
                       \<and> map toupper (c_str (take 8 l)) = ''END''))"
proof -
  obtain t where
    b: "enterData_body input MAX_HEX_DIGITS HEX_INPUT_BUFFER_SIZE (line @ NL # rest)
     = Some (if c_str (take 8 line) = [] then Again (NUL # t) rest
             else if map toupper (c_str (take 8 line)) = ''END'' then Exit 0
             else if \<not> list_all hex_digit_spec (map toupper (c_str (take 8 line)))
               then Again (replicate (length (c_str (take 8 line))) NUL @ NUL # t) rest
             else Break (map toupper (c_str (take 8 line)) @ NUL # t) rest)"
    using enterData_body_line [OF assms] by blast
  have 1: "(\<exists>status. enterData_body input MAX_HEX_DIGITS HEX_INPUT_BUFFER_SIZE (line @ NL # rest)
              = Some (Exit status))
            = (map toupper (c_str (take 8 line)) = ''END'')"
    unfolding b by auto
  have 2: "(enterData_body input MAX_HEX_DIGITS HEX_INPUT_BUFFER_SIZE (line @ NL # rest)
              = Some (Exit 0))
            = (map toupper (c_str (take 8 line)) = ''END'')"
    unfolding b by auto
  have 3: "NUL \<notin> set line \<longrightarrow>
              (enterData_body input MAX_HEX_DIGITS HEX_INPUT_BUFFER_SIZE (line @ NL # rest)
                 = Some (Exit 0))
              = (map toupper line = ''END'')"
  proof (intro impI)
    assume z: "NUL \<notin> set line"
    show "(enterData_body input MAX_HEX_DIGITS HEX_INPUT_BUFFER_SIZE (line @ NL # rest)
                 = Some (Exit 0))
              = (map toupper line = ''END'')"
      by (simp only: 2 END_plain_line [OF z])
  qed
  have 4: "map toupper (c_str (take 8 line)) = ''END'' \<longrightarrow>
              enterData input MAX_HEX_DIGITS HEX_INPUT_BUFFER_SIZE (line @ NL # rest)
                 = Some (Exited 0)"
  proof (intro impI)
    assume "map toupper (c_str (take 8 line)) = ''END''"
    then have "enterData_body input MAX_HEX_DIGITS HEX_INPUT_BUFFER_SIZE (line @ NL # rest)
                 = Some (Exit 0)"
      by (simp only: 2)
    then show "enterData input MAX_HEX_DIGITS HEX_INPUT_BUFFER_SIZE (line @ NL # rest)
                 = Some (Exited 0)"
      by (subst enterData.simps) (simp only: option.case pass.case)
  qed
  have 5: "\<forall>stdin status.
              enterData input MAX_HEX_DIGITS HEX_INPUT_BUFFER_SIZE stdin = Some (Exited status)
              \<longrightarrow> status = 0
                  \<and> (\<exists>pre l r. stdin = pre @ l @ NL # r \<and> NL \<notin> set l
                       \<and> map toupper (c_str (take 8 l)) = ''END'')"
  proof (intro allI impI)
    fix stdin status
    assume "enterData input MAX_HEX_DIGITS HEX_INPUT_BUFFER_SIZE stdin = Some (Exited status)"
    from enterData_result [OF this assms(2)] obtain pre l r where
      "stdin = pre @ l @ NL # r" "NL \<notin> set l"
      "status = 0" "map toupper (c_str (take 8 l)) = ''END''"
      unfolding outcome.case by iprover
    then show "status = 0
                  \<and> (\<exists>pre l r. stdin = pre @ l @ NL # r \<and> NL \<notin> set l
                       \<and> map toupper (c_str (take 8 l)) = ''END'')"
      by (intro conjI exI)
  qed
  show ?thesis
    by (intro conjI) (rule 1 2 3 4 5)+
qed

theorem shutdown_iff_normalised_END_witness:
  "NL \<notin> set ''End'' \<and> length (replicate 9 NUL) = 9 \<and> NUL \<notin> set ''End''
   \<and> map toupper ''End'' = ''END''
   \<and> enterData_body (replicate 9 NUL) MAX_HEX_DIGITS HEX_INPUT_BUFFER_SIZE (''End'' @ NL # ''FF'')
        = Some (Exit 0)
   \<and> enterData (replicate 9 NUL) MAX_HEX_DIGITS HEX_INPUT_BUFFER_SIZE (''End'' @ NL # ''FF'')
        = Some (Exited 0)"
proof -
  have n: "NL \<notin> set ''End''" by (simp add: NL_def)
  have z: "NUL \<notin> set ''End''" by (simp add: NUL_def)
  have l: "length (replicate 9 NUL) = 9" by simp
  have u: "map toupper ''End'' = ''END''" by code_simp
  have c: "c_str (take 8 ''End'') = ''End''" using z by (simp add: c_str_id)
  show ?thesis
    using shutdown_iff_normalised_END [OF n l, of "''FF''"] n z u c
    by simp
qed

text \<open>
  Claim C7, amended. A pass through the input loop accepts a line exactly when the first 8
  characters of the line, up to a \<open>NUL\<close> byte if there is one, are not empty and are
  all hexadecimal digits 0-9, A-F after the conversion to upper case (a line of at most 8
  characters without \<open>NUL\<close> bytes is checked as a whole); the buffer then holds that
  upper-case string. The loop goes round again exactly when these characters are empty,
  or hold another character and do not read \<open>END\<close>. \<open>enterData\<close> returns only
  with a buffer that holds 1 to 8 hexadecimal digits.
\<close>

theorem validation_accepts_iff:
  assumes "NL \<notin> set line" "length input = 9"
  shows "((\<exists>b. enterData_body input MAX_HEX_DIGITS HEX_INPUT_BUFFER_SIZE (line @ NL # rest)
              = Some (Break b rest))
            = (c_str (take 8 line) \<noteq> []
               \<and> list_all hex_digit_spec (map toupper (c_str (take 8 line)))))
         \<and> (\<forall>b r. enterData_body input MAX_HEX_DIGITS HEX_INPUT_BUFFER_SIZE (line @ NL # rest)
                = Some (Break b r)
              \<longrightarrow> r = rest \<and> length b = 9 \<and> c_str b = map toupper (c_str (take 8 line)))
         \<and> ((\<exists>b. enterData_body input MAX_HEX_DIGITS HEX_INPUT_BUFFER_SIZE (line @ NL # rest)
              = Some (Again b rest))
            = (c_str (take 8 line) = []
               \<or> (map toupper (c_str (take 8 line)) \<noteq> ''END''
                   \<and> \<not> list_all hex_digit_spec (map toupper (c_str (take 8 line))))))
         \<and> (NUL \<notin> set line \<and> length line \<le> 8 \<longrightarrow> c_str (take 8 line) = line)
         \<and> (\<forall>stdin b r.
              enterData input MAX_HEX_DIGITS HEX_INPUT_BUFFER_SIZE stdin = Some (Returned b r)
              \<longrightarrow> c_str b \<noteq> [] \<and> length (c_str b) \<le> 8 \<and> list_all hex_digit_spec (c_str b))"
proof -
  define s where "s = c_str (take 8 line)"
  define u where "u = map toupper s"
  obtain t where t: "length t = 8 - length s" and
    b: "enterData_body input MAX_HEX_DIGITS HEX_INPUT_BUFFER_SIZE (line @ NL # rest)
     = Some (if s = [] then Again (NUL # t) rest
             else if u = ''END'' then Exit 0
             else if \<not> list_all hex_digit_spec u
               then Again (replicate (length s) NUL @ NUL # t) rest
             else Break (u @ NUL # t) rest)"
    unfolding u_def s_def using enterData_body_line [OF assms] by blast
  have l: "length s \<le> 8"
    unfolding s_def using length_c_str_le [of "take 8 line"] by simp
  have un: "NUL \<notin> set u"
    unfolding u_def s_def by (rule toupper_no_NUL [OF c_str_no_NUL])
  have ul: "length u = length s" by (simp add: u_def)
  have e: "u = ''END'' \<Longrightarrow> \<not> list_all hex_digit_spec u"
    using END_not_hex by simp
  have 1: "(\<exists>b. enterData_body input MAX_HEX_DIGITS HEX_INPUT_BUFFER_SIZE (line @ NL # rest)
              = Some (Break b rest))
            = (s \<noteq> [] \<and> list_all hex_digit_spec u)"
    unfolding b using e by auto
  have 2: "\<forall>b r. enterData_body input MAX_HEX_DIGITS HEX_INPUT_BUFFER_SIZE (line @ NL # rest)
                = Some (Break b r)
              \<longrightarrow> r = rest \<and> length b = 9 \<and> c_str b = u"
    using t l ul unfolding b
    by (auto simp: c_str_append_NUL [OF un] split: if_splits)
  have 3: "(\<exists>b. enterData_body input MAX_HEX_DIGITS HEX_INPUT_BUFFER_SIZE (line @ NL # rest)
              = Some (Again b rest))
            = (s = [] \<or> (u \<noteq> ''END'' \<and> \<not> list_all hex_digit_spec u))"
    unfolding b by auto
  have 4: "NUL \<notin> set line \<and> length line \<le> 8 \<longrightarrow> s = line"
    unfolding s_def using stored_plain_line [of line] by (intro impI) (elim conjE)
  have 5: "\<forall>stdin b r.
              enterData input MAX_HEX_DIGITS HEX_INPUT_BUFFER_SIZE stdin = Some (Returned b r)
              \<longrightarrow> c_str b \<noteq> [] \<and> length (c_str b) \<le> 8 \<and> list_all hex_digit_spec (c_str b)"
  proof (intro allI impI)
    fix stdin b' r
    assume "enterData input MAX_HEX_DIGITS HEX_INPUT_BUFFER_SIZE stdin = Some (Returned b' r)"
    from enterData_result [OF this assms(2)] obtain l' where
      c: "c_str b' = map toupper (c_str (take 8 l'))" "c_str (take 8 l') \<noteq> []"
        "list_all hex_digit_spec (map toupper (c_str (take 8 l')))"
      unfolding outcome.case by iprover
    have "length (c_str (take 8 l')) \<le> 8"
      using length_c_str_le [of "take 8 l'"] by simp
    with c show "c_str b' \<noteq> [] \<and> length (c_str b') \<le> 8 \<and> list_all hex_digit_spec (c_str b')"
      by simp
  qed
  show ?thesis
    unfolding u_def [symmetric] s_def [symmetric]
    by (intro conjI) (rule 1 2 3 4 5)+
qed

lemma body_lowercase_hex:
  "enterData_body (replicate 9 NUL) MAX_HEX_DIGITS HEX_INPUT_BUFFER_SIZE (''abcdef01'' @ NL # ''END'')
     = Some (Break (''ABCDEF01'' @ [NUL]) ''END'')"
  by code_simp

theorem validation_accepts_iff_witness:
  "NL \<notin> set ''abcdef01'' \<and> length (replicate 9 NUL) = 9
   \<and> enterData_body (replicate 9 NUL) MAX_HEX_DIGITS HEX_INPUT_BUFFER_SIZE (''abcdef01'' @ NL # ''END'')
        = Some (Break (''ABCDEF01'' @ [NUL]) ''END'')
   \<and> c_str (take 8 ''abcdef01'') \<noteq> []
   \<and> list_all hex_digit_spec (map toupper (c_str (take 8 ''abcdef01'')))
   \<and> c_str (''ABCDEF01'' @ [NUL]) = map toupper (c_str (take 8 ''abcdef01''))"
proof -
  have n: "NL \<notin> set ''abcdef01''" by (simp add: NL_def)
  have l: "length (replicate 9 NUL) = 9" by simp
  show ?thesis
    using validation_accepts_iff [OF n l, of "''END''"] body_lowercase_hex n
    by auto
qed

end
